theory Spec2Isabelle
  imports Complex_Main "HOL-Library.Word" "HOL-Library.Log_Nat"
begin

section \<open>Go values\<close>

text \<open>
  A Go \<open>byte\<close> is an unsigned 8-bit integer, a \<open>[]byte\<close> a list of them. A Go
  \<open>string\<close> is a sequence of bytes, which is what \<^typ>\<open>string\<close> is. The counters of
  \<open>processRepository\<close> are Go \<open>int\<close>s (64 bits); they count files of one directory
  walk and stay far below \<open>2^63\<close>, so they are \<^typ>\<open>int\<close> here.
\<close>

type_synonym byte = "8 word"
type_synonym bytes = "byte list"

subsection \<open>float64 arithmetic\<close>

text \<open>
  \<open>isBinary\<close> compares a quotient of two \<open>float64\<close> values with the constant \<open>0.3\<close>.
  A finite \<open>float64\<close> is represented by the rational number it denotes. Every IEEE 754
  operation returns its exact result rounded to the nearest number with a 53-bit
  significand, ties to the even significand: \<open>round64\<close>. The exponent range is not
  modelled: the operands of \<open>isBinary\<close> are integers below \<open>2^63\<close> and their quotients,
  all of magnitude between \<open>2^-63\<close> and \<open>2^63\<close> or zero, inside the normal range.
\<close>

definition roundHalfEven :: "rat \<Rightarrow> int" where
  "roundHalfEven x =
     (let f = \<lfloor>x\<rfloor>; d = x - of_int f
      in if d < 1 / 2 then f else if 1 / 2 < d then f + 1 else if even f then f else f + 1)"

text \<open>\<open>ilog2 x\<close> is the binary exponent of a positive rational: \<open>2^e \<le> x < 2^(e+1)\<close>.\<close>

definition ilog2 :: "rat \<Rightarrow> int" where
  "ilog2 x =
     (let (a, b) = quotient_of x;
          e = int (floorlog 2 (nat a)) - int (floorlog 2 (nat b))
      in if 2 powi e \<le> x then e else e - 1)"

definition round64 :: "rat \<Rightarrow> rat" where
  "round64 x =
     (if x = 0 then 0
      else let s = 2 powi (ilog2 \<bar>x\<bar> - 52) in of_int (roundHalfEven (x / s)) * s)"

text \<open>The conversion \<open>float64(n)\<close> of an \<open>int\<close>, and the division of two \<open>float64\<close>
  (the divisor of \<open>isBinary\<close> is the length of a non-empty buffer, never zero).\<close>

definition float64_of_int :: "int \<Rightarrow> rat" where
  "float64_of_int n = round64 (of_int n)"

definition float64_div :: "rat \<Rightarrow> rat \<Rightarrow> rat" where
  "float64_div x y = round64 (x / y)"

text \<open>The untyped constant \<open>0.3\<close>, converted to \<open>float64\<close> by the compiler.\<close>

definition float64_0_3 :: rat where
  "float64_0_3 = round64 (3 / 10)"

section \<open>The binary classifier\<close>

text \<open>The first loop of \<open>isBinary\<close>: is there a null byte?\<close>

fun containsNull :: "bytes \<Rightarrow> bool" where
  "containsNull [] = False"
| "containsNull (b # bs) = (if b = 0 then True else containsNull bs)"

text \<open>The second loop: \<open>nonPrintable\<close> is incremented for every byte below 32 that is
  not a line feed, a carriage return or a tab.\<close>

fun countNonPrintable :: "bytes \<Rightarrow> int \<Rightarrow> int" where
  "countNonPrintable [] nonPrintable = nonPrintable"
| "countNonPrintable (b # bs) nonPrintable =
     countNonPrintable bs
       (if b < 32 \<and> b \<noteq> 10 \<and> b \<noteq> 13 \<and> b \<noteq> 9 then nonPrintable + 1 else nonPrintable)"

text \<open>The bytes the second loop counts, as a predicate: below \<open>0x20\<close> and none of
  \<open>\n\<close> (\<open>0x0A\<close>), \<open>\r\<close> (\<open>0x0D\<close>), \<open>\t\<close> (\<open>0x09\<close>).\<close>

definition nonPrintableByte :: "byte \<Rightarrow> bool" where
  "nonPrintableByte b = (b < 0x20 \<and> b \<noteq> 0x0A \<and> b \<noteq> 0x0D \<and> b \<noteq> 0x09)"

definition isBinary :: "bytes \<Rightarrow> bool" where
  "isBinary data =
     (if length data = 0 then False
      else if containsNull data then True
      else float64_0_3 <
             float64_div (float64_of_int (countNonPrintable data 0))
                         (float64_of_int (int (length data))))"

section \<open>The path filter\<close>

text \<open>
  What the filter takes from the platform: the separator convention of \<open>path/filepath\<close>,
  the Unicode case mapping that \<open>strings.ToLower\<close> applies to a string with a byte
  outside ASCII, and \<open>filepath.Rel\<close>, which the traversal uses for display paths.
\<close>

datatype goos = Unix | Windows

datatype error = Errno string | Wrapped string error

fun Error :: "error \<Rightarrow> string" where
  "Error (Errno msg) = msg"
| "Error (Wrapped prefix err) = prefix @ Error err"

record platform =
  GOOS :: goos
  unicodeToLower :: "string \<Rightarrow> string"
  filepathRel :: "string \<Rightarrow> string \<Rightarrow> error + string"

definition isPathSeparator :: "goos \<Rightarrow> char \<Rightarrow> bool" where
  "isPathSeparator os c =
     (case os of Unix \<Rightarrow> c = CHR ''/'' | Windows \<Rightarrow> c = CHR 0x5C \<or> c = CHR ''/'')"

definition ToSlash :: "goos \<Rightarrow> string \<Rightarrow> string" where
  "ToSlash os path =
     (case os of Unix \<Rightarrow> path
      | Windows \<Rightarrow> map (\<lambda>c. if c = CHR 0x5C then CHR ''/'' else c) path)"

text \<open>\<open>strings.Split\<close> with a one-byte separator: the pieces between the separators,
  empty pieces included; a string without the separator is its own single piece.\<close>

fun Split :: "string \<Rightarrow> char \<Rightarrow> string list" where
  "Split [] sep = [[]]"
| "Split (c # cs) sep =
     (if c = sep then [] # Split cs sep
      else (case Split cs sep of [] \<Rightarrow> [[c]] | part # parts \<Rightarrow> (c # part) # parts))"

definition HasPrefix :: "string \<Rightarrow> string \<Rightarrow> bool" where
  "HasPrefix s prefix = (length prefix \<le> length s \<and> take (length prefix) s = prefix)"

text \<open>\<open>filepath.Ext\<close> scans from the last byte towards the first and stops at a
  separator; \<open>ExtFrom os path k\<close> is the scan with \<open>k\<close> bytes left to look at
  (the index \<open>i\<close> of the source is \<open>k - 1\<close>).\<close>

fun ExtFrom :: "goos \<Rightarrow> string \<Rightarrow> nat \<Rightarrow> string" where
  "ExtFrom os path 0 = []"
| "ExtFrom os path (Suc i) =
     (if isPathSeparator os (path ! i) then []
      else if path ! i = CHR ''.'' then drop i path
      else ExtFrom os path i)"

definition Ext :: "goos \<Rightarrow> string \<Rightarrow> string" where
  "Ext os path = ExtFrom os path (length path)"

definition lowerASCII :: "char \<Rightarrow> char" where
  "lowerASCII c =
     (let n = of_char c :: nat in if 65 \<le> n \<and> n \<le> 90 then char_of (n + 32) else c)"

definition ToLower :: "(string \<Rightarrow> string) \<Rightarrow> string \<Rightarrow> string" where
  "ToLower unicodeLower s =
     (if list_all (\<lambda>c. (of_char c :: nat) < 128) s then map lowerASCII s else unicodeLower s)"

definition binaryExts :: "string list" where
  "binaryExts =
     [''.exe'', ''.dll'', ''.so'', ''.dylib'', ''.a'', ''.o'',
      ''.jpg'', ''.jpeg'', ''.png'', ''.gif'', ''.bmp'', ''.ico'', ''.svg'',
      ''.mp3'', ''.mp4'', ''.avi'', ''.mov'', ''.wav'',
      ''.zip'', ''.tar'', ''.gz'', ''.bz2'', ''.7z'', ''.rar'',
      ''.pdf'', ''.doc'', ''.docx'', ''.xls'', ''.xlsx'',
      ''.pyc'', ''.pyo'', ''.class'', ''.jar'',
      ''.db'', ''.sqlite'', ''.sqlite3'']"

definition shouldSkipFile :: "platform \<Rightarrow> string \<Rightarrow> bool" where
  "shouldSkipFile pf path =
     (let parts = Split (ToSlash (GOOS pf) path) CHR ''/''
      in if list_ex (\<lambda>part. HasPrefix part ''.'' \<and> part \<noteq> ''.'') parts then True
         else let ext = ToLower (unicodeToLower pf) (Ext (GOOS pf) path)
              in list_ex (\<lambda>binExt. ext = binExt) binaryExts)"

section \<open>Files\<close>

text \<open>
  The file system maps a path to a file. \<open>os.ReadFile\<close> fails on a missing path and on
  a file with a read fault. \<open>os.WriteFile\<close> opens the file truncating it, writes and
  closes: a fault at the opening leaves the file as it was, a fault at writing leaves
  the bytes written so far. The permission argument is used only when the call creates
  the file. Every call of \<open>os.WriteFile\<close> is recorded with its arguments.
\<close>

datatype writeFault = OpenFails error | WriteFails error nat

record fileState =
  content :: bytes
  mode :: nat
  readFault :: "error option"
  writeFault :: "writeFault option"

record world =
  files :: "string \<rightharpoonup> fileState"
  writeCalls :: "(string \<times> bytes \<times> nat) list"
  stdout :: string

definition ReadFile :: "world \<Rightarrow> string \<Rightarrow> error + bytes" where
  "ReadFile w name =
     (case files w name of
        None \<Rightarrow> Inl (Errno ''no such file or directory'')
      | Some f \<Rightarrow> (case readFault f of Some err \<Rightarrow> Inl err | None \<Rightarrow> Inr (content f)))"

definition WriteFile :: "world \<Rightarrow> string \<Rightarrow> bytes \<Rightarrow> nat \<Rightarrow> error option \<times> world" where
  "WriteFile w name data perm =
     (let w1 = w\<lparr>writeCalls := writeCalls w @ [(name, data, perm)]\<rparr>
      in case files w name of
           None \<Rightarrow>
             (None, w1\<lparr>files := (files w)(name \<mapsto>
                \<lparr>content = data, mode = perm, readFault = None, writeFault = None\<rparr>)\<rparr>)
         | Some f \<Rightarrow>
             (case writeFault f of
                None \<Rightarrow> (None, w1\<lparr>files := (files w)(name \<mapsto> f\<lparr>content := data\<rparr>)\<rparr>)
              | Some (OpenFails err) \<Rightarrow> (Some err, w1)
              | Some (WriteFails err k) \<Rightarrow>
                  (Some err, w1\<lparr>files := (files w)(name \<mapsto> f\<lparr>content := take k data\<rparr>)\<rparr>)))"

definition HasSuffix :: "bytes \<Rightarrow> bytes \<Rightarrow> bool" where
  "HasSuffix s suffix =
     (length suffix \<le> length s \<and> drop (length s - length suffix) s = suffix)"

section \<open>checkAndFixFile\<close>

text \<open>The permission bits \<open>0o644\<close> that \<open>checkAndFixFile\<close> passes to
  \<open>os.WriteFile\<close>: \<open>rw-r--r--\<close>, in decimal 420.\<close>

definition perm0644 :: nat where
  "perm0644 = 6 * 64 + 4 * 8 + 4"

definition checkAndFixFile :: "world \<Rightarrow> string \<Rightarrow> bool \<Rightarrow> (error + bool) \<times> world" where
  "checkAndFixFile w path fix =
     (case ReadFile w path of
        Inl err \<Rightarrow> (Inl (Wrapped ''failed to read file: '' err), w)
      | Inr data \<Rightarrow>
          if length data = 0 then (Inr True, w)
          else if isBinary data then (Inr True, w)
          else let endsWithNewline = HasSuffix data [10]
               in if \<not> endsWithNewline \<and> fix then
                    (case WriteFile w path (data @ [10]) perm0644 of
                       (Some err, w') \<Rightarrow> (Inl (Wrapped ''failed to write file: '' err), w')
                     | (None, w') \<Rightarrow> (Inr False, w'))
                  else (Inr endsWithNewline, w))"

section \<open>processRepository\<close>

text \<open>
  \<open>filepath.Walk\<close> calls its function on every entry of the tree, in its order, and
  stops at the first error the function returns. An entry is what the function
  receives: the path, whether \<open>info.IsDir()\<close> holds, and the error of the walk at this
  entry, if any. \<open>Walk\<close> runs a function over the entries the walk yields.
\<close>

record entry =
  path :: string
  isDir :: bool
  walkErr :: "error option"

fun Walk :: "(entry \<Rightarrow> 's \<Rightarrow> error option \<times> 's) \<Rightarrow> entry list \<Rightarrow> 's \<Rightarrow> error option \<times> 's" where
  "Walk fn [] s = (None, s)"
| "Walk fn (en # ens) s =
     (case fn en s of (Some err, s') \<Rightarrow> (Some err, s') | (None, s') \<Rightarrow> Walk fn ens s')"

text \<open>The variables of \<open>processRepository\<close> that its function literal updates.\<close>

record stats =
  totalFiles :: int
  fixedFiles :: int
  skippedFiles :: int
  problematicFiles :: "string list"

definition newline :: string where
  "newline = [CHR 0x0A]"

definition relPathOf :: "platform \<Rightarrow> string \<Rightarrow> string \<Rightarrow> string" where
  "relPathOf pf repoPath p =
     (case filepathRel pf repoPath p of Inl err \<Rightarrow> p | Inr relPath \<Rightarrow> relPath)"

definition walkFn ::
  "platform \<Rightarrow> string \<Rightarrow> bool \<Rightarrow> entry \<Rightarrow> stats \<times> world \<Rightarrow> error option \<times> stats \<times> world" where
  "walkFn pf repoPath fix en s =
     (case s of (st, w) \<Rightarrow>
      (case walkErr en of
         Some err \<Rightarrow> (Some err, st, w)
       | None \<Rightarrow>
           if isDir en then (None, st, w)
           else let relPath = relPathOf pf repoPath (path en)
                in if shouldSkipFile pf relPath
                   then (None, st\<lparr>skippedFiles := skippedFiles st + 1\<rparr>, w)
                   else let st1 = st\<lparr>totalFiles := totalFiles st + 1\<rparr>
                        in (case checkAndFixFile w (path en) fix of
                              (Inl err, w') \<Rightarrow>
                                (None, st1,
                                 w'\<lparr>stdout := stdout w' @ ''Error processing '' @ relPath @
                                                 '': '' @ Error err @ newline\<rparr>)
                            | (Inr endsWithNewline, w') \<Rightarrow>
                                if \<not> endsWithNewline then
                                  if fix then
                                    (None, st1\<lparr>fixedFiles := fixedFiles st1 + 1\<rparr>,
                                     w'\<lparr>stdout := stdout w' @ ''Fixed: '' @ relPath @ newline\<rparr>)
                                  else
                                    (None,
                                     st1\<lparr>problematicFiles := problematicFiles st1 @ [relPath]\<rparr>,
                                     w')
                                else (None, st1, w'))))"

definition initialStats :: stats where
  "initialStats = \<lparr>totalFiles = 0, fixedFiles = 0, skippedFiles = 0, problematicFiles = []\<rparr>"

text \<open>The call of \<open>filepath.Walk\<close> in \<open>processRepository\<close>, with the variables it
  leaves behind.\<close>

definition walkRepository ::
  "platform \<Rightarrow> string \<Rightarrow> bool \<Rightarrow> entry list \<Rightarrow> world \<Rightarrow> error option \<times> stats \<times> world" where
  "walkRepository pf repoPath fix entries w =
     Walk (walkFn pf repoPath fix) entries (initialStats, w)"

text \<open>\<open>fmt.Printf("%d")\<close> of an \<open>int\<close>.\<close>

function showNat :: "nat \<Rightarrow> string" where
  "showNat n =
     (if n < 10 then [char_of (48 + n)] else showNat (n div 10) @ [char_of (48 + n mod 10)])"
  by pat_completeness auto
termination
  by (relation "measure id") auto

definition showInt :: "int \<Rightarrow> string" where
  "showInt i = (if i < 0 then ''-'' @ showNat (nat (- i)) else showNat (nat i))"

definition summary :: "bool \<Rightarrow> stats \<Rightarrow> string" where
  "summary fix st =
     newline @ ''=== Summary ==='' @ newline @
     ''Total files checked: '' @ showInt (totalFiles st) @ newline @
     ''Files skipped: '' @ showInt (skippedFiles st) @ newline @
     (if fix then
        ''Files fixed: '' @ showInt (fixedFiles st) @ newline @
        (if fixedFiles st = 0 then ''All files already end with newline!'' @ newline else [])
      else
        ''Files missing newline: '' @ showInt (int (length (problematicFiles st))) @ newline @
        (if 0 < length (problematicFiles st) then
           newline @ ''Files that don't end with newline:'' @ newline @
           concat (map (\<lambda>file. ''  - '' @ file @ newline) (problematicFiles st)) @
           newline @ ''Run with -fix flag to automatically add newlines'' @ newline
         else ''All files end with newline!'' @ newline))"

definition processRepository ::
  "platform \<Rightarrow> string \<Rightarrow> bool \<Rightarrow> entry list \<Rightarrow> world \<Rightarrow> error option \<times> world" where
  "processRepository pf repoPath fix entries w =
     (case walkRepository pf repoPath fix entries w of
        (Some err, st, w') \<Rightarrow> (Some (Wrapped ''failed to walk repository: '' err), w')
      | (None, st, w') \<Rightarrow> (None, w'\<lparr>stdout := stdout w' @ summary fix st\<rparr>))"

section \<open>The buckets of the specification\<close>

text \<open>
  The entries the function of the walk is called on without an error of the walk:
  the walk ends at the first entry that carries one.
\<close>

definition visited :: "entry list \<Rightarrow> entry list" where
  "visited entries = takeWhile (\<lambda>en. walkErr en = None) entries"

text \<open>
  The specification sorts every visited regular file into a bucket. \<open>bucketOf\<close> follows
  its words, not the code: a file the path filter rejects is skipped; an empty file, a
  binary file and a file whose last byte is \<open>\n\<close> are fine; any other file is missing
  its newline in check mode and fixed in fix mode. A file whose read or write fails is
  in none of these four: it is \<open>Failed\<close>.
\<close>

datatype bucket = Skipped | Fine | Fixed | Missing | Failed

definition bucketOf :: "platform \<Rightarrow> string \<Rightarrow> bool \<Rightarrow> world \<Rightarrow> entry \<Rightarrow> bucket" where
  "bucketOf pf repoPath fix w en =
     (if shouldSkipFile pf (relPathOf pf repoPath (path en)) then Skipped
      else case ReadFile w (path en) of
             Inl err \<Rightarrow> Failed
           | Inr data \<Rightarrow>
               if data = [] \<or> isBinary data \<or> last data = 0x0A then Fine
               else if \<not> fix then Missing
               else (case fst (WriteFile w (path en) (data @ [0x0A]) perm0644) of
                       Some err \<Rightarrow> Failed
                     | None \<Rightarrow> Fixed))"

text \<open>The buckets of the visited regular files of one run, each judged on the world
  the run has reached when it visits the file.\<close>

fun bucketsOfRun ::
  "platform \<Rightarrow> string \<Rightarrow> bool \<Rightarrow> entry list \<Rightarrow> stats \<times> world \<Rightarrow> bucket list" where
  "bucketsOfRun pf repoPath fix [] s = []"
| "bucketsOfRun pf repoPath fix (en # ens) s =
     (case walkErr en of
        Some err \<Rightarrow> []
      | None \<Rightarrow>
          (if isDir en then [] else [bucketOf pf repoPath fix (snd s) en]) @
          bucketsOfRun pf repoPath fix ens (snd (walkFn pf repoPath fix en s)))"

text \<open>In fix mode a file is fixable when \<open>checkAndFixFile\<close> reports it as fixed.\<close>

definition fixable :: "world \<Rightarrow> string \<Rightarrow> bool" where
  "fixable w p = (fst (checkAndFixFile w p True) = Inr False)"

text \<open>The data and the permission argument of the calls of \<open>os.WriteFile\<close> on one path,
  in the order of the calls.\<close>

definition writesTo :: "world \<Rightarrow> string \<Rightarrow> (bytes \<times> nat) list" where
  "writesTo w p = map snd (filter (\<lambda>c. fst c = p) (writeCalls w))"

section \<open>Example inputs\<close>

text \<open>A Unix platform for strings of ASCII only; \<open>filepath.Rel\<close> strips the root
  and the separator after it.\<close>

definition unixPlatform :: platform where
  "unixPlatform =
     \<lparr>GOOS = Unix, unicodeToLower = (\<lambda>s. s),
      filepathRel = (\<lambda>root p. Inr (drop (length root + 1) p))\<rparr>"

definition textFile :: "bytes \<Rightarrow> fileState" where
  "textFile data = \<lparr>content = data, mode = perm0644, readFault = None, writeFault = None\<rparr>"

definition regular :: "string \<Rightarrow> entry" where
  "regular p = \<lparr>path = p, isDir = False, walkErr = None\<rparr>"

definition directory :: "string \<Rightarrow> entry" where
  "directory p = \<lparr>path = p, isDir = True, walkErr = None\<rparr>"

text \<open>A tree with \<open>a.txt\<close> = \<open>"hi"\<close> (no newline), \<open>b.txt\<close> = \<open>"hi\n"\<close>, a hidden
  \<open>.git/config\<close> and \<open>c.txt\<close>, which cannot be read.\<close>

definition exampleWorld :: world where
  "exampleWorld =
     \<lparr>files =
        [''repo/a.txt'' \<mapsto> textFile [104, 105],
         ''repo/b.txt'' \<mapsto> textFile [104, 105, 10],
         ''repo/.git/config'' \<mapsto> textFile [120],
         ''repo/c.txt'' \<mapsto> (textFile [104, 105])\<lparr>readFault := Some (Errno ''permission denied'')\<rparr>],
      writeCalls = [], stdout = []\<rparr>"

definition exampleEntries :: "entry list" where
  "exampleEntries =
     [directory ''repo'', directory ''repo/.git'', regular ''repo/.git/config'',
      regular ''repo/a.txt'', regular ''repo/b.txt'', regular ''repo/c.txt'']"

section \<open>Rounding to float64\<close>

lemma roundHalfEven_of_int: "roundHalfEven (of_int k) = k"
  by (simp add: roundHalfEven_def)

lemma roundHalfEven_lower: "\<lfloor>x\<rfloor> \<le> roundHalfEven x"
  by (simp add: roundHalfEven_def Let_def)

lemma roundHalfEven_upper: "roundHalfEven x \<le> \<lfloor>x\<rfloor> + 1"
  by (simp add: roundHalfEven_def Let_def)

lemma roundHalfEven_mono:
  assumes "x \<le> y"
  shows "roundHalfEven x \<le> roundHalfEven y"
proof (cases "\<lfloor>x\<rfloor> = \<lfloor>y\<rfloor>")
  case True
  with assms show ?thesis by (auto simp: roundHalfEven_def Let_def)
next
  case False
  with assms have "\<lfloor>x\<rfloor> < \<lfloor>y\<rfloor>" using floor_mono[OF assms] by linarith
  then show ?thesis using roundHalfEven_upper[of x] roundHalfEven_lower[of y] by linarith
qed

lemma quotient_of_pos:
  assumes "0 < x" and "quotient_of x = (a, b)"
  shows "0 < a" and "0 < b" and "x = of_int a / of_int b"
proof -
  show b: "0 < b" using assms(2) by (rule quotient_of_denom_pos)
  show x: "x = of_int a / of_int b" using assms(2) by (rule quotient_of_div)
  show "0 < a" using assms(1) b x by (simp add: zero_less_divide_iff)
qed

lemma floorlog2_rat_bounds:
  assumes "0 < (a::int)"
  shows "(2::rat) powi (int (floorlog 2 (nat a)) - 1) \<le> of_int a"
    and "(of_int a :: rat) < 2 powi (int (floorlog 2 (nat a)))"
proof -
  let ?l = "floorlog 2 (nat a)"
  have pos: "0 < nat a" using assms by simp
  from floorlog_bounds[OF pos, of 2]
  have lo: "2 ^ (?l - 1) \<le> nat a" and hi: "nat a < 2 ^ ?l" by simp_all
  have l1: "1 \<le> ?l" using pos by (simp add: floorlog_def)
  have "(2::rat) powi (int ?l - 1) = 2 ^ (?l - 1)"
    using l1 by (simp add: power_int_def nat_diff_distrib')
  also have "\<dots> = of_nat (2 ^ (?l - 1))" by simp
  also have "\<dots> \<le> of_nat (nat a)" using lo by (simp only: of_nat_le_iff)
  also have "\<dots> = of_int a" using assms by simp
  finally show "(2::rat) powi (int ?l - 1) \<le> of_int a" .
  have "(of_int a :: rat) = of_nat (nat a)" using assms by simp
  also have "\<dots> < of_nat (2 ^ ?l)" using hi by (simp only: of_nat_less_iff)
  also have "\<dots> = 2 powi (int ?l)" by simp
  finally show "(of_int a :: rat) < 2 powi (int ?l)" .
qed

lemma ilog2_bounds:
  assumes "0 < x"
  shows "2 powi (ilog2 x) \<le> x" and "x < 2 powi (ilog2 x + 1)"
proof -
  obtain a b where q: "quotient_of x = (a, b)" by (cases "quotient_of x")
  note ab = quotient_of_pos[OF assms q]
  define la where "la = int (floorlog 2 (nat a))"
  define lb where "lb = int (floorlog 2 (nat b))"
  define e where "e = la - lb"
  have a_lo: "(2::rat) powi (la - 1) \<le> of_int a" and a_hi: "(of_int a :: rat) < 2 powi la"
    using floorlog2_rat_bounds[OF ab(1)] by (simp_all add: la_def)
  have b_lo: "(2::rat) powi (lb - 1) \<le> of_int b" and b_hi: "(of_int b :: rat) < 2 powi lb"
    using floorlog2_rat_bounds[OF ab(2)] by (simp_all add: lb_def)
  have bpos: "(0::rat) < of_int b" using ab(2) by simp
  have lower: "2 powi (e - 1) \<le> x"
  proof -
    have "(2::rat) powi (e - 1) * of_int b \<le> 2 powi (e - 1) * 2 powi lb"
      using b_hi by (simp add: mult_left_mono)
    also have "\<dots> = 2 powi (la - 1)" by (simp add: e_def power_int_add[symmetric])
    also have "\<dots> \<le> of_int a" by (rule a_lo)
    finally show ?thesis using bpos by (simp add: ab(3) pos_le_divide_eq)
  qed
  have upper: "x < 2 powi (e + 1)"
  proof -
    have "(of_int a :: rat) < 2 powi la" by (rule a_hi)
    also have "\<dots> = 2 powi (e + 1) * 2 powi (lb - 1)"
      by (simp add: e_def power_int_add[symmetric])
    also have "\<dots> \<le> 2 powi (e + 1) * of_int b" using b_lo by (simp add: mult_left_mono)
    finally show ?thesis using bpos by (simp add: ab(3) pos_divide_less_eq)
  qed
  have il: "ilog2 x = (if 2 powi e \<le> x then e else e - 1)"
    by (simp add: ilog2_def q Let_def e_def la_def lb_def)
  show "2 powi (ilog2 x) \<le> x" using lower by (simp add: il)
  show "x < 2 powi (ilog2 x + 1)" using upper by (auto simp: il)
qed

lemma pow2_less_exp:
  assumes "(2::rat) powi m < 2 powi n"
  shows "m < n"
proof (rule ccontr)
  assume "\<not> m < n"
  then have "n \<le> m" by simp
  then have "(2::rat) powi n \<le> 2 powi m" by (rule power_int_increasing) simp
  with assms show False by simp
qed

lemma ilog2_unique:
  assumes "2 powi e \<le> x" and "x < 2 powi (e + 1)"
  shows "ilog2 x = e"
proof -
  have "(0::rat) < 2 powi e" by simp
  then have xpos: "0 < x" using assms(1) by (rule less_le_trans)
  note b = ilog2_bounds[OF xpos]
  have "(2::rat) powi e < 2 powi (ilog2 x + 1)" using assms(1) b(2) by simp
  then have 1: "e < ilog2 x + 1" by (rule pow2_less_exp)
  have "(2::rat) powi (ilog2 x) < 2 powi (e + 1)" using assms(2) b(1) by simp
  then have 2: "ilog2 x < e + 1" by (rule pow2_less_exp)
  from 1 2 show ?thesis by simp
qed

lemma ilog2_mono:
  assumes "0 < x" and "x \<le> y"
  shows "ilog2 x \<le> ilog2 y"
proof -
  have ypos: "0 < y" using assms by simp
  have "(2::rat) powi (ilog2 x) < 2 powi (ilog2 y + 1)"
    using ilog2_bounds(1)[OF assms(1)] ilog2_bounds(2)[OF ypos] assms(2) by simp
  then have "ilog2 x < ilog2 y + 1" by (rule pow2_less_exp)
  then show ?thesis by simp
qed

lemma round64_0: "round64 0 = 0"
  by (simp add: round64_def)

lemma round64_pos_def:
  assumes "0 < x"
  shows "round64 x = of_int (roundHalfEven (x / 2 powi (ilog2 x - 52))) * 2 powi (ilog2 x - 52)"
  using assms by (simp add: round64_def Let_def)

lemma round64_at_exponent:
  assumes "2 powi e \<le> x" and "x < 2 powi (e + 1)"
  shows "round64 x = of_int (roundHalfEven (x / 2 powi (e - 52))) * 2 powi (e - 52)"
proof -
  have "(0::rat) < 2 powi e" by simp
  then have "0 < x" using assms(1) by (rule less_le_trans)
  then show ?thesis using ilog2_unique[OF assms] by (simp add: round64_def Let_def)
qed

text \<open>A positive number is rounded within its binade.\<close>

lemma round64_bounds:
  assumes "0 < x"
  shows "2 powi (ilog2 x) \<le> round64 x" and "round64 x \<le> 2 powi (ilog2 x + 1)"
proof -
  define e where "e = ilog2 x"
  define s :: rat where "s = 2 powi (e - 52)"
  have spos: "0 < s" by (simp add: s_def)
  have r: "round64 x = of_int (roundHalfEven (x / s)) * s"
    using round64_pos_def[OF assms] by (simp add: s_def e_def)
  have lo_eq: "(2::rat) powi e / s = of_int (2 ^ 52)"
    by (simp add: s_def power_int_diff)
  have hi_eq: "(2::rat) powi (e + 1) / s = of_int (2 ^ 53)"
    by (simp add: s_def power_int_diff power_int_add)
  have "(2::rat) powi e / s \<le> x / s"
    using ilog2_bounds(1)[OF assms] spos by (simp add: e_def divide_right_mono)
  then have "roundHalfEven (of_int (2 ^ 52)) \<le> roundHalfEven (x / s)"
    unfolding lo_eq by (rule roundHalfEven_mono)
  then have lo: "2 ^ 52 \<le> roundHalfEven (x / s)" by (simp only: roundHalfEven_of_int)
  have "x / s \<le> (2::rat) powi (e + 1) / s"
    using ilog2_bounds(2)[OF assms] spos by (simp add: e_def divide_right_mono)
  then have "roundHalfEven (x / s) \<le> roundHalfEven (of_int (2 ^ 53))"
    unfolding hi_eq by (rule roundHalfEven_mono)
  then have hi: "roundHalfEven (x / s) \<le> 2 ^ 53" by (simp only: roundHalfEven_of_int)
  have "(2::rat) powi e = of_int (2 ^ 52) * s" using lo_eq spos by (simp add: field_simps)
  also have "\<dots> \<le> of_int (roundHalfEven (x / s)) * s"
    using lo spos by (intro mult_right_mono) (simp_all only: of_int_le_iff less_imp_le)
  finally show "2 powi (ilog2 x) \<le> round64 x" by (simp add: r e_def)
  have "of_int (roundHalfEven (x / s)) * s \<le> of_int (2 ^ 53) * s"
    using hi spos by (intro mult_right_mono) (simp_all only: of_int_le_iff less_imp_le)
  also have "\<dots> = (2::rat) powi (e + 1)" using hi_eq spos by (simp add: field_simps)
  finally show "round64 x \<le> 2 powi (ilog2 x + 1)" by (simp add: r e_def)
qed

text \<open>Rounding is monotone: within one binade it is the monotone rounding of the
  significand, and across binades the power of two between them separates the results.\<close>

lemma round64_mono:
  assumes "0 \<le> x" and "x \<le> y"
  shows "round64 x \<le> round64 y"
proof (cases "x = 0")
  case True
  show ?thesis
  proof (cases "y = 0")
    case True
    with \<open>x = 0\<close> show ?thesis by simp
  next
    case False
    with assms True have ypos: "0 < y" by simp
    have "(0::rat) \<le> 2 powi (ilog2 y)" by simp
    also have "\<dots> \<le> round64 y" by (rule round64_bounds(1)[OF ypos])
    finally show ?thesis using True by (simp add: round64_def)
  qed
next
  case False
  with assms have xpos: "0 < x" by simp
  with assms have ypos: "0 < y" by simp
  have le: "ilog2 x \<le> ilog2 y" by (rule ilog2_mono[OF xpos assms(2)])
  show ?thesis
  proof (cases "ilog2 x = ilog2 y")
    case True
    define s :: rat where "s = 2 powi (ilog2 y - 52)"
    have spos: "0 < s" by (simp add: s_def)
    have "x / s \<le> y / s" using assms(2) spos by (simp add: divide_right_mono)
    then have "roundHalfEven (x / s) \<le> roundHalfEven (y / s)" by (rule roundHalfEven_mono)
    then have "(of_int (roundHalfEven (x / s)) :: rat) * s \<le> of_int (roundHalfEven (y / s)) * s"
      using spos by (intro mult_right_mono) (simp_all only: of_int_le_iff less_imp_le)
    then show ?thesis
      by (simp add: round64_pos_def[OF xpos] round64_pos_def[OF ypos] True s_def)
  next
    case False
    with le have "ilog2 x + 1 \<le> ilog2 y" by simp
    then have "(2::rat) powi (ilog2 x + 1) \<le> 2 powi (ilog2 y)"
      by (rule power_int_increasing) simp
    with round64_bounds(2)[OF xpos] round64_bounds(1)[OF ypos] show ?thesis by linarith
  qed
qed

lemma round64_nonneg: "0 \<le> x \<Longrightarrow> 0 \<le> round64 x"
  using round64_mono[of 0 x] by (simp add: round64_0)

lemma round64_pos:
  assumes "0 < x"
  shows "0 < round64 x"
proof -
  have "(0::rat) < 2 powi (ilog2 x)" by simp
  also have "\<dots> \<le> round64 x" by (rule round64_bounds(1)[OF assms])
  finally show ?thesis .
qed

text \<open>An integer below \<open>2^53\<close> is a float64: the conversion is exact.\<close>

lemma round64_exact_nat:
  assumes "n < 2 ^ 53"
  shows "round64 (of_nat n) = of_nat n"
proof (cases "n = 0")
  case True
  then show ?thesis by (simp add: round64_def)
next
  case False
  then have xpos: "(0::rat) < of_nat n" by simp
  define e where "e = ilog2 (of_nat n)"
  have "(2::rat) powi e \<le> of_nat n" using ilog2_bounds(1)[OF xpos] by (simp add: e_def)
  also have "\<dots> < of_nat (2 ^ 53)" using assms by (simp only: of_nat_less_iff)
  also have "\<dots> = (2::rat) powi 53" by simp
  finally have "e < 53" by (rule pow2_less_exp)
  define k where "k = nat (52 - e)"
  have ke: "e - 52 = - int k" using \<open>e < 53\<close> by (simp add: k_def)
  have s: "(2::rat) powi (e - 52) = 1 / 2 ^ k" by (simp add: ke power_int_minus_divide)
  have "of_nat n / (2::rat) powi (e - 52) = of_int (int n * 2 ^ k)" by (simp add: s)
  then have "roundHalfEven (of_nat n / (2::rat) powi (e - 52)) = int n * 2 ^ k"
    by (simp only: roundHalfEven_of_int)
  then show ?thesis using round64_pos_def[OF xpos] by (simp add: e_def[symmetric] s)
qed

text \<open>The float64 nearest to \<open>0.3\<close> lies below it, and the midpoint between it and the
  next float64 is rounded upwards.\<close>

lemma float64_0_3_value: "float64_0_3 = 5404319552844595 / 18014398509481984"
proof -
  have f: "\<lfloor>27021597764222976 / 5 :: rat\<rfloor> = 5404319552844595"
    by (rule floor_unique) simp_all
  have "roundHalfEven (27021597764222976 / 5) = 5404319552844595"
    by (simp add: roundHalfEven_def Let_def f)
  then show ?thesis
    unfolding float64_0_3_def
    by (subst round64_at_exponent[where e = "-2"]) simp_all
qed

lemma round64_above_0_3:
  "round64 (10808639105689191 / 36028797018963968) = 5404319552844596 / 18014398509481984"
proof -
  have f: "\<lfloor>10808639105689191 / 2 :: rat\<rfloor> = 5404319552844595"
    by (rule floor_unique) simp_all
  have "roundHalfEven (10808639105689191 / 2) = 5404319552844596"
    by (simp add: roundHalfEven_def Let_def f)
  then show ?thesis
    by (subst round64_at_exponent[where e = "-2"]) simp_all
qed

section \<open>Properties of the binary classifier\<close>

lemma containsNull_iff: "containsNull data \<longleftrightarrow> 0 \<in> set data"
  by (induction data) auto

lemma countNonPrintable_eq:
  "countNonPrintable data n = n + int (length (filter nonPrintableByte data))"
  by (induction data arbitrary: n) (simp_all add: nonPrintableByte_def)

lemma isBinary_float:
  assumes "data \<noteq> []" and "0 \<notin> set data"
  shows "isBinary data \<longleftrightarrow>
    float64_0_3 < round64 (round64 (of_nat (length (filter nonPrintableByte data)))
                           / round64 (of_nat (length data)))"
  using assms
  by (simp add: isBinary_def containsNull_iff countNonPrintable_eq float64_div_def
      float64_of_int_def)

text \<open>
  Claim C3. For a non-empty buffer without a null byte, \<open>isBinary\<close> returns true exactly
  when the bytes below \<open>0x20\<close> other than \<open>\n\<close>, \<open>\r\<close> and \<open>\t\<close> are more than 30% of the
  buffer: \<open>10 * count > 3 * length\<close>. At exactly 30% it returns false. The float64
  comparison of the code agrees with this comparison of integers for every buffer of
  at most \<open>2^52\<close> bytes, four pebibytes, more than a Go program can hold in memory.
\<close>

theorem isBinary_threshold:
  assumes "data \<noteq> []" and "0 \<notin> set data" and "length data \<le> 2 ^ 52"
  shows "isBinary data \<longleftrightarrow>
           3 * length data < 10 * length (filter nonPrintableByte data)"
proof -
  define n where "n = length (filter nonPrintableByte data)"
  define l where "l = length data"
  have lpos: "0 < l" using assms(1) by (simp add: l_def)
  have nl: "n \<le> l" by (simp add: n_def l_def)
  have l53: "l < 2 ^ 53" using assms(3) by (simp add: l_def)
  have n53: "n < 2 ^ 53" using nl l53 by simp
  have eq: "isBinary data \<longleftrightarrow> float64_0_3 < round64 (of_nat n / of_nat l)"
    using isBinary_float[OF assms(1,2)]
    by (simp add: n_def[symmetric] l_def[symmetric] round64_exact_nat[OF l53]
        round64_exact_nat[OF n53])
  have lq: "(0::rat) < of_nat l" using lpos by simp
  show ?thesis
  proof (cases "3 * l < 10 * n")
    case True
    then have "3 * l + 1 \<le> 10 * n" by simp
    then have "(of_nat (3 * l + 1) :: rat) \<le> of_nat (10 * n)" by (simp only: of_nat_le_iff)
    then have 1: "3 * of_nat l + 1 \<le> (10::rat) * of_nat n" by simp
    have "(of_nat l :: rat) \<le> of_nat (2 ^ 52)"
      using assms(3) unfolding l_def by (simp only: of_nat_le_iff)
    then have 2: "(of_nat l :: rat) \<le> 4503599627370496" by simp
    have "(10808639105689191 / 36028797018963968 :: rat) * of_nat l \<le> of_nat n"
      using 1 2 by simp
    then have "(10808639105689191 / 36028797018963968 :: rat) \<le> of_nat n / of_nat l"
      using lq by (simp add: pos_le_divide_eq)
    then have "round64 (10808639105689191 / 36028797018963968) \<le> round64 (of_nat n / of_nat l)"
      by (intro round64_mono) simp_all
    then have "float64_0_3 < round64 (of_nat n / of_nat l)"
      by (simp add: round64_above_0_3 float64_0_3_value)
    with True show ?thesis by (simp add: eq n_def l_def)
  next
    case False
    then have "10 * n \<le> 3 * l" by simp
    then have "(of_nat (10 * n) :: rat) \<le> of_nat (3 * l)" by (simp only: of_nat_le_iff)
    then have "(10::rat) * of_nat n \<le> 3 * of_nat l" by simp
    then have "(of_nat n :: rat) / of_nat l \<le> 3 / 10" using lq by (simp add: pos_divide_le_eq)
    then have "round64 (of_nat n / of_nat l) \<le> round64 (3 / 10)"
      by (intro round64_mono) simp_all
    then have "\<not> float64_0_3 < round64 (of_nat n / of_nat l)"
      by (simp add: float64_0_3_def)
    with False show ?thesis by (simp add: eq n_def l_def)
  qed
qed

text \<open>Three bytes of ten are control bytes: exactly 30%, classified as text.\<close>

theorem isBinary_threshold_witness:
  "[1, 2, 3, 65, 65, 65, 65, 65, 65, 65] \<noteq> ([] :: bytes) \<and>
   0 \<notin> set [1, 2, 3, 65, 65, 65, 65, 65, 65, 65 :: byte] \<and>
   length [1, 2, 3, 65, 65, 65, 65, 65, 65, 65 :: byte] \<le> 2 ^ 52 \<and>
   \<not> isBinary [1, 2, 3, 65, 65, 65, 65, 65, 65, 65]"
  using isBinary_threshold[of "[1, 2, 3, 65, 65, 65, 65, 65, 65, 65]"]
  by (simp add: nonPrintableByte_def)

text \<open>
  Claim C8. A buffer with a byte \<open>0x00\<close> in it is binary, whatever else it holds and
  however long it is.
\<close>

theorem isBinary_null:
  assumes "0 \<in> set data"
  shows "isBinary data"
proof -
  from assms have "data \<noteq> []" by auto
  with assms show ?thesis by (simp add: isBinary_def containsNull_iff)
qed

theorem isBinary_null_witness: "(0::byte) \<in> set [72, 0, 105] \<and> isBinary [72, 0, 105]"
  using isBinary_null[of "[72, 0, 105]"] by simp

text \<open>
  Claim C10. A buffer that \<open>isBinary\<close> takes for text is still text with one \<open>0x0A\<close>
  appended: the count of control bytes stays, the length grows, and the rounded
  quotient cannot grow. So the file that the fix writes is not binary.
\<close>

theorem isBinary_append_newline:
  assumes "\<not> isBinary data"
  shows "\<not> isBinary (data @ [0x0A])"
proof (cases "data = []")
  case True
  have "isBinary [0x0A] = False" by code_simp
  with True show ?thesis by simp
next
  case False
  have nonull: "0 \<notin> set data" using assms False by (auto simp: isBinary_def containsNull_iff)
  define n :: rat where "n = round64 (of_nat (length (filter nonPrintableByte data)))"
  define l :: rat where "l = round64 (of_nat (length data))"
  define l1 :: rat where "l1 = round64 (of_nat (length (data @ [0x0A])))"
  have old: "\<not> float64_0_3 < round64 (n / l)"
    using assms isBinary_float[OF False nonull] by (simp add: n_def l_def)
  have n0: "0 \<le> n" unfolding n_def by (rule round64_nonneg) simp
  have lpos: "0 < l" unfolding l_def using False by (intro round64_pos) simp
  have ll1: "l \<le> l1" unfolding l_def l1_def by (intro round64_mono) simp_all
  have "n / l1 \<le> n / l" using n0 lpos ll1 by (simp add: frac_le)
  moreover have "0 \<le> n / l1" using n0 lpos ll1 by simp
  ultimately have "round64 (n / l1) \<le> round64 (n / l)" by (intro round64_mono)
  with old have new: "\<not> float64_0_3 < round64 (n / l1)" by simp
  have "isBinary (data @ [0x0A]) \<longleftrightarrow> float64_0_3 < round64 (n / l1)"
    using isBinary_float[of "data @ [0x0A]"] nonull
    by (simp add: n_def l1_def nonPrintableByte_def)
  with new show ?thesis by simp
qed

theorem isBinary_append_newline_witness:
  "\<not> isBinary [104, 105, 106, 1] \<and> \<not> isBinary ([104, 105, 106, 1] @ [0x0A])"
proof -
  have h: "\<not> isBinary [104, 105, 106, 1]" by code_simp
  from h isBinary_append_newline[OF h] show ?thesis by simp
qed

section \<open>Properties of the path filter\<close>

lemma Split_nonempty: "Split s sep \<noteq> []"
  by (induction s) (auto split: list.splits)

text \<open>Splitting is what its name says: a separator ends a piece, and a piece holds
  no separator.\<close>

lemma Split_append_sep: "Split (a @ sep # b) sep = Split a sep @ Split b sep"
  by (induction a) (auto simp: Split_nonempty split: list.splits)

lemma Split_no_sep: "sep \<notin> set s \<Longrightarrow> Split s sep = [s]"
  by (induction s) auto

lemma Split_parts_no_sep: "part \<in> set (Split s sep) \<Longrightarrow> sep \<notin> set part"
  by (induction s arbitrary: part) (auto split: if_splits list.splits)

text \<open>\<open>filepath.Ext\<close> returns the last dot of the last path element and what follows it.\<close>

lemma ExtFrom_final_dot:
  assumes "j \<le> length suf"
    and "\<forall>c\<in>set (take j suf). c \<noteq> CHR ''.'' \<and> \<not> isPathSeparator os c"
  shows "ExtFrom os (stem @ CHR ''.'' # suf) (Suc (length stem) + j) = CHR ''.'' # suf"
  using assms
proof (induction j)
  case 0
  then show ?case by (simp add: isPathSeparator_def split: goos.splits)
next
  case (Suc j)
  then have j: "j < length suf" by simp
  have "suf ! j \<in> set (take (Suc j) suf)" using j by (simp add: take_Suc_conv_app_nth)
  with Suc.prems have ok: "suf ! j \<noteq> CHR ''.''" "\<not> isPathSeparator os (suf ! j)" by auto
  have idx: "(stem @ CHR ''.'' # suf) ! (Suc (length stem) + j) = suf ! j"
    by (simp add: nth_append)
  have "\<forall>c\<in>set (take j suf). c \<noteq> CHR ''.'' \<and> \<not> isPathSeparator os c"
    using Suc.prems(2) j by (auto simp: take_Suc_conv_app_nth)
  with Suc.IH j have "ExtFrom os (stem @ CHR ''.'' # suf) (Suc (length stem) + j) = CHR ''.'' # suf"
    by simp
  then show ?case using ok idx by simp
qed

lemma Ext_final_dot:
  assumes "\<forall>c\<in>set suf. c \<noteq> CHR ''.'' \<and> \<not> isPathSeparator os c"
  shows "Ext os (stem @ CHR ''.'' # suf) = CHR ''.'' # suf"
  using ExtFrom_final_dot[of "length suf" suf os stem] assms by (simp add: Ext_def)

text \<open>
  Claim C6. If the path, with its separators turned into \<open>/\<close> and split at them, has a
  segment that starts with a dot and is not the segment \<open>.\<close> itself, the filter skips
  the path; the extension is not looked at.
\<close>

theorem shouldSkipFile_hidden_segment:
  assumes "CHR ''.'' # rest \<in> set (Split (ToSlash (GOOS pf) p) CHR ''/'')"
    and "rest \<noteq> []"
  shows "shouldSkipFile pf p"
proof -
  have "HasPrefix (CHR ''.'' # rest) ''.'' \<and> CHR ''.'' # rest \<noteq> ''.''"
    using assms(2) by (simp add: HasPrefix_def)
  with assms(1) show ?thesis
    by (auto simp: shouldSkipFile_def Let_def list_ex_iff)
qed

theorem shouldSkipFile_hidden_segment_witness:
  "CHR ''.'' # ''git'' \<in> set (Split (ToSlash (GOOS unixPlatform) ''src/.git/notes.txt'') CHR ''/'') \<and>
   ''git'' \<noteq> [] \<and> shouldSkipFile unixPlatform ''src/.git/notes.txt''"
proof -
  have h: "CHR ''.'' # ''git'' \<in>
           set (Split (ToSlash (GOOS unixPlatform) ''src/.git/notes.txt'') CHR ''/'')"
    by code_simp
  from h shouldSkipFile_hidden_segment[OF h] show ?thesis by simp
qed

text \<open>
  Claim C7. The extension of a path is its end from the last dot of the last segment
  on. If the extension in lower case is one of the entries of the deny-list, the
  filter skips the path. The match ignores case: \<open>IMAGE.PNG\<close> and \<open>image.png\<close> are
  both skipped (the witness).
\<close>

theorem shouldSkipFile_denied_extension:
  assumes "p = stem @ CHR ''.'' # suf"
    and "\<forall>c\<in>set suf. c \<noteq> CHR ''.'' \<and> \<not> isPathSeparator (GOOS pf) c"
    and "ToLower (unicodeToLower pf) (CHR ''.'' # suf) \<in> set binaryExts"
  shows "shouldSkipFile pf p"
  using assms Ext_final_dot[of suf "GOOS pf" stem]
  by (auto simp: shouldSkipFile_def Let_def list_ex_iff)

lemma ToLower_PNG: "ToLower u ''.PNG'' = ''.png''"
  by code_simp

lemma ToLower_png: "ToLower u ''.png'' = ''.png''"
  by code_simp

theorem shouldSkipFile_denied_extension_witness:
  "shouldSkipFile unixPlatform ''IMAGE.PNG'' \<and> shouldSkipFile unixPlatform ''image.png''"
proof -
  have 1: "shouldSkipFile unixPlatform ''IMAGE.PNG''"
    by (rule shouldSkipFile_denied_extension[where stem = "''IMAGE''" and suf = "''PNG''"])
       (simp_all add: isPathSeparator_def ToLower_PNG binaryExts_def split: goos.splits)
  have 2: "shouldSkipFile unixPlatform ''image.png''"
    by (rule shouldSkipFile_denied_extension[where stem = "''image''" and suf = "''png''"])
       (simp_all add: isPathSeparator_def ToLower_png binaryExts_def split: goos.splits)
  from 1 2 show ?thesis by simp
qed

section \<open>Properties of the traversal\<close>

lemma HasSuffix_newline: "data \<noteq> [] \<Longrightarrow> HasSuffix data [0x0A] \<longleftrightarrow> last data = 0x0A"
  by (cases data rule: rev_cases) (simp_all add: HasSuffix_def)

lemma checkAndFixFile_read_error:
  "ReadFile w p = Inl err \<Longrightarrow>
   checkAndFixFile w p fix = (Inl (Wrapped ''failed to read file: '' err), w)"
  by (simp add: checkAndFixFile_def)

lemma checkAndFixFile_fine:
  "ReadFile w p = Inr data \<Longrightarrow> data = [] \<or> isBinary data \<or> last data = 0x0A \<Longrightarrow>
   checkAndFixFile w p fix = (Inr True, w)"
  by (auto simp: checkAndFixFile_def Let_def HasSuffix_newline)

lemma checkAndFixFile_missing:
  "ReadFile w p = Inr data \<Longrightarrow> data \<noteq> [] \<Longrightarrow> \<not> isBinary data \<Longrightarrow> last data \<noteq> 0x0A \<Longrightarrow>
   checkAndFixFile w p False = (Inr False, w)"
  by (simp add: checkAndFixFile_def Let_def HasSuffix_newline)

lemma checkAndFixFile_fix:
  "ReadFile w p = Inr data \<Longrightarrow> data \<noteq> [] \<Longrightarrow> \<not> isBinary data \<Longrightarrow> last data \<noteq> 0x0A \<Longrightarrow>
   checkAndFixFile w p True =
     (case WriteFile w p (data @ [0x0A]) perm0644 of
        (Some err, w') \<Rightarrow> (Inl (Wrapped ''failed to write file: '' err), w')
      | (None, w') \<Rightarrow> (Inr False, w'))"
  by (simp add: checkAndFixFile_def Let_def HasSuffix_newline)

lemma walkFn_err: "walkErr en = Some err \<Longrightarrow> walkFn pf repoPath fix en s = (Some err, s)"
  by (cases s) (simp add: walkFn_def)

lemma walkFn_ok: "walkErr en = None \<Longrightarrow> fst (walkFn pf repoPath fix en s) = None"
  by (cases s) (simp add: walkFn_def Let_def split: prod.splits sum.splits)

lemma walkFn_dir: "walkErr en = None \<Longrightarrow> isDir en \<Longrightarrow> walkFn pf repoPath fix en s = (None, s)"
  by (cases s) (simp add: walkFn_def)

lemma Walk_Cons_err:
  "walkErr en = Some err \<Longrightarrow> Walk (walkFn pf repoPath fix) (en # ens) s = (Some err, s)"
  by (simp add: walkFn_err)

lemma Walk_Cons_ok:
  assumes "walkErr en = None"
  shows "Walk (walkFn pf repoPath fix) (en # ens) s =
         Walk (walkFn pf repoPath fix) ens (snd (walkFn pf repoPath fix en s))"
proof -
  obtain r s' where eq: "walkFn pf repoPath fix en s = (r, s')" by (cases "walkFn pf repoPath fix en s")
  with walkFn_ok[OF assms, of pf repoPath "fix" s] have "r = None" by simp
  with eq show ?thesis by simp
qed

text \<open>One visit of a regular file moves the counters as its bucket says.\<close>

lemma walkFn_bucket:
  assumes "walkErr en = None" and "\<not> isDir en"
  shows "skippedFiles (fst (snd (walkFn pf repoPath fix en (st, w)))) =
           skippedFiles st + (if bucketOf pf repoPath fix w en = Skipped then 1 else 0) \<and>
         totalFiles (fst (snd (walkFn pf repoPath fix en (st, w)))) =
           totalFiles st + (if bucketOf pf repoPath fix w en = Skipped then 0 else 1) \<and>
         fixedFiles (fst (snd (walkFn pf repoPath fix en (st, w)))) =
           fixedFiles st + (if bucketOf pf repoPath fix w en = Fixed then 1 else 0) \<and>
         problematicFiles (fst (snd (walkFn pf repoPath fix en (st, w)))) =
           problematicFiles st @
           (if bucketOf pf repoPath fix w en = Missing then [relPathOf pf repoPath (path en)]
            else [])"
proof (cases "shouldSkipFile pf (relPathOf pf repoPath (path en))")
  case True
  with assms show ?thesis by (simp add: bucketOf_def walkFn_def Let_def)
next
  case noskip: False
  show ?thesis
  proof (cases "ReadFile w (path en)")
    case (Inl err)
    with noskip assms show ?thesis
      by (simp add: bucketOf_def walkFn_def Let_def checkAndFixFile_read_error)
  next
    case (Inr data)
    show ?thesis
    proof (cases "data = [] \<or> isBinary data \<or> last data = 0x0A")
      case True
      with Inr noskip assms show ?thesis
        by (simp add: bucketOf_def walkFn_def Let_def checkAndFixFile_fine[OF Inr True])
    next
      case False
      then have d: "data \<noteq> []" "\<not> isBinary data" "last data \<noteq> 0x0A" by simp_all
      show ?thesis
      proof (cases "fix")
        case False
        with Inr noskip assms d show ?thesis
          by (simp add: bucketOf_def walkFn_def Let_def checkAndFixFile_missing[OF Inr d])
      next
        case True
        obtain r w1 where wr: "WriteFile w (path en) (data @ [0x0A]) perm0644 = (r, w1)"
          by (cases "WriteFile w (path en) (data @ [0x0A]) perm0644")
        with True Inr noskip assms d show ?thesis
          by (cases r)
             (simp_all add: bucketOf_def walkFn_def Let_def checkAndFixFile_fix[OF Inr d])
      qed
    qed
  qed
qed

lemma Walk_buckets:
  "skippedFiles (fst (snd (Walk (walkFn pf repoPath fix) entries (st, w)))) =
     skippedFiles st + int (count_list (bucketsOfRun pf repoPath fix entries (st, w)) Skipped) \<and>
   totalFiles (fst (snd (Walk (walkFn pf repoPath fix) entries (st, w)))) =
     totalFiles st +
       int (count_list (bucketsOfRun pf repoPath fix entries (st, w)) Fine +
            count_list (bucketsOfRun pf repoPath fix entries (st, w)) Fixed +
            count_list (bucketsOfRun pf repoPath fix entries (st, w)) Missing +
            count_list (bucketsOfRun pf repoPath fix entries (st, w)) Failed) \<and>
   fixedFiles (fst (snd (Walk (walkFn pf repoPath fix) entries (st, w)))) =
     fixedFiles st + int (count_list (bucketsOfRun pf repoPath fix entries (st, w)) Fixed) \<and>
   int (length (problematicFiles (fst (snd (Walk (walkFn pf repoPath fix) entries (st, w)))))) =
     int (length (problematicFiles st)) +
     int (count_list (bucketsOfRun pf repoPath fix entries (st, w)) Missing) \<and>
   length (bucketsOfRun pf repoPath fix entries (st, w)) =
     length (filter (\<lambda>en. \<not> isDir en) (visited entries))"
proof (induction entries arbitrary: st w)
  case Nil
  then show ?case by (simp add: visited_def)
next
  case (Cons en ens)
  show ?case
  proof (cases "walkErr en")
    case (Some err)
    then show ?thesis by (simp add: Walk_Cons_err visited_def del: Walk.simps)
  next
    case None
    obtain st1 w1 where s1: "snd (walkFn pf repoPath fix en (st, w)) = (st1, w1)"
      by (cases "snd (walkFn pf repoPath fix en (st, w))")
    note IH = Cons.IH[of st1 w1]
    show ?thesis
    proof (cases "isDir en")
      case True
      with None s1 have "st1 = st" "w1 = w" by (simp_all add: walkFn_dir)
      with IH None True show ?thesis
        by (simp add: Walk_Cons_ok[OF None] walkFn_dir visited_def del: Walk.simps)
    next
      case False
      have st1: "fst (snd (walkFn pf repoPath fix en (st, w))) = st1" using s1 by simp
      note d = walkFn_bucket[OF None False, of pf repoPath "fix" st w, unfolded st1]
      show ?thesis
        using IH None False d
        by (cases "bucketOf pf repoPath fix w en")
           (simp_all add: Walk_Cons_ok[OF None] s1 visited_def del: Walk.simps)
    qed
  qed
qed

lemma count_list_buckets:
  "count_list bs Skipped + count_list bs Fine + count_list bs Fixed + count_list bs Missing +
   count_list bs Failed = length bs"
proof (induction bs)
  case Nil
  then show ?case by simp
next
  case (Cons b bs)
  then show ?case by (cases b) simp_all
qed

lemma count_list_zero: "x \<notin> set xs \<Longrightarrow> count_list xs x = 0"
  by (induction xs) auto

text \<open>
  Claim C2, amended. The claim has four buckets and \<open>total = fine + fixed + missing\<close>.
  The code counts a file into \<open>totalFiles\<close> before it reads it, so a file whose read or
  write fails is counted as checked and is in none of the three. With the fifth bucket
  \<open>Failed\<close>: every visited regular file is in exactly one bucket, the skipped counter
  counts the skipped files, the fixed counter the fixed ones, the missing-newline list
  has one entry for every file with a missing newline, the total-checked counter is
  \<open>fine + fixed + missing + failed\<close>, and skipped plus total-checked is the number of
  visited regular files. Where no read and no write fails, the total is
  \<open>fine + fixed + missing\<close>, as the claim has it.
\<close>

theorem walkRepository_buckets:
  "skippedFiles (fst (snd (walkRepository pf repoPath fix entries w))) =
     int (count_list (bucketsOfRun pf repoPath fix entries (initialStats, w)) Skipped) \<and>
   totalFiles (fst (snd (walkRepository pf repoPath fix entries w))) =
     int (count_list (bucketsOfRun pf repoPath fix entries (initialStats, w)) Fine) +
     int (count_list (bucketsOfRun pf repoPath fix entries (initialStats, w)) Fixed) +
     int (count_list (bucketsOfRun pf repoPath fix entries (initialStats, w)) Missing) +
     int (count_list (bucketsOfRun pf repoPath fix entries (initialStats, w)) Failed) \<and>
   fixedFiles (fst (snd (walkRepository pf repoPath fix entries w))) =
     int (count_list (bucketsOfRun pf repoPath fix entries (initialStats, w)) Fixed) \<and>
   int (length (problematicFiles (fst (snd (walkRepository pf repoPath fix entries w))))) =
     int (count_list (bucketsOfRun pf repoPath fix entries (initialStats, w)) Missing) \<and>
   skippedFiles (fst (snd (walkRepository pf repoPath fix entries w))) +
   totalFiles (fst (snd (walkRepository pf repoPath fix entries w))) =
     int (length (filter (\<lambda>en. \<not> isDir en) (visited entries))) \<and>
   (Failed \<notin> set (bucketsOfRun pf repoPath fix entries (initialStats, w)) \<longrightarrow>
    totalFiles (fst (snd (walkRepository pf repoPath fix entries w))) =
      int (count_list (bucketsOfRun pf repoPath fix entries (initialStats, w)) Fine) +
      int (count_list (bucketsOfRun pf repoPath fix entries (initialStats, w)) Fixed) +
      int (count_list (bucketsOfRun pf repoPath fix entries (initialStats, w)) Missing))"
  using Walk_buckets[of pf repoPath "fix" entries initialStats w]
    count_list_buckets[of "bucketsOfRun pf repoPath fix entries (initialStats, w)"]
    count_list_zero[of Failed "bucketsOfRun pf repoPath fix entries (initialStats, w)"]
  by (auto simp: walkRepository_def initialStats_def)

text \<open>The example tree in fix mode: one file in each of four buckets.\<close>

theorem walkRepository_buckets_witness:
  "skippedFiles (fst (snd (walkRepository unixPlatform ''repo'' True exampleEntries exampleWorld))) = 1 \<and>
   totalFiles (fst (snd (walkRepository unixPlatform ''repo'' True exampleEntries exampleWorld))) = 3 \<and>
   bucketsOfRun unixPlatform ''repo'' True exampleEntries (initialStats, exampleWorld) =
     [Skipped, Fixed, Fine, Failed]"
proof -
  have bs: "bucketsOfRun unixPlatform ''repo'' True exampleEntries (initialStats, exampleWorld) =
     [Skipped, Fixed, Fine, Failed]"
    by code_simp
  from bs walkRepository_buckets[of unixPlatform "''repo''" True exampleEntries exampleWorld]
  show ?thesis by simp
qed

text \<open>Claim C2 as stated fails on a tree with one unreadable file: the file is counted
  as checked, and it is neither fine nor fixed nor missing its newline.\<close>

theorem total_counts_failed_file:
  "totalFiles (fst (snd (walkRepository unixPlatform ''repo'' False [regular ''repo/c.txt'']
      exampleWorld))) \<noteq>
   int (count_list (bucketsOfRun unixPlatform ''repo'' False [regular ''repo/c.txt'']
          (initialStats, exampleWorld)) Fine) +
   int (count_list (bucketsOfRun unixPlatform ''repo'' False [regular ''repo/c.txt'']
          (initialStats, exampleWorld)) Fixed) +
   int (count_list (bucketsOfRun unixPlatform ''repo'' False [regular ''repo/c.txt'']
          (initialStats, exampleWorld)) Missing)"
  by code_simp

text \<open>
  Claim C1, amended. When the read of a visited, unskipped regular file fails, the walk
  prints \<open>Error processing <relative path>: failed to read file: <error>\<close> for this file
  and goes on with the next entry; no file is touched, and the skipped counter, the
  fixed counter and the missing-newline list stay as they are. The total-checked
  counter does not: it is incremented before the read, so the file is counted as
  checked.
\<close>

theorem read_failure_reported:
  assumes "walkErr en = None" and "\<not> isDir en"
    and "\<not> shouldSkipFile pf (relPathOf pf repoPath (path en))"
    and "ReadFile w (path en) = Inl err"
  shows "Walk (walkFn pf repoPath fix) (en # rest) (st, w) =
         Walk (walkFn pf repoPath fix) rest
           (st\<lparr>totalFiles := totalFiles st + 1\<rparr>,
            w\<lparr>stdout := stdout w @ ''Error processing '' @ relPathOf pf repoPath (path en) @
                          '': failed to read file: '' @ Error err @ newline\<rparr>)"
  using assms by (simp add: walkFn_def Let_def checkAndFixFile_read_error)

theorem read_failure_reported_witness:
  "ReadFile exampleWorld ''repo/c.txt'' = Inl (Errno ''permission denied'') \<and>
   Walk (walkFn unixPlatform ''repo'' False) [regular ''repo/c.txt'', regular ''repo/b.txt'']
     (initialStats, exampleWorld) =
   Walk (walkFn unixPlatform ''repo'' False) [regular ''repo/b.txt'']
     (initialStats\<lparr>totalFiles := totalFiles initialStats + 1\<rparr>,
      exampleWorld\<lparr>stdout := stdout exampleWorld @ ''Error processing '' @
         relPathOf unixPlatform ''repo'' (path (regular ''repo/c.txt'')) @
         '': failed to read file: '' @ Error (Errno ''permission denied'') @ newline\<rparr>)"
proof -
  have r: "ReadFile exampleWorld (path (regular ''repo/c.txt'')) = Inl (Errno ''permission denied'')"
    by code_simp
  have s: "\<not> shouldSkipFile unixPlatform (relPathOf unixPlatform ''repo'' (path (regular ''repo/c.txt'')))"
    by code_simp
  have e: "walkErr (regular ''repo/c.txt'') = None" "\<not> isDir (regular ''repo/c.txt'')"
    by (simp_all add: regular_def)
  from read_failure_reported[OF e s r, of False "[regular ''repo/b.txt'']" initialStats] r
  show ?thesis by (simp add: regular_def)
qed

text \<open>Claim C1 as stated fails: the read of \<open>c.txt\<close> fails, and the total-checked
  counter goes from 0 to 1.\<close>

theorem read_failure_counted:
  "ReadFile exampleWorld ''repo/c.txt'' = Inl (Errno ''permission denied'') \<and>
   totalFiles (fst (snd (walkFn unixPlatform ''repo'' False (regular ''repo/c.txt'')
      (initialStats, exampleWorld)))) \<noteq> totalFiles initialStats"
  by code_simp

lemma checkAndFixFile_check_world: "snd (checkAndFixFile w p False) = w"
  by (simp add: checkAndFixFile_def Let_def split: sum.splits)

lemma walkFn_check_world:
  "files (snd (snd (walkFn pf repoPath False en (st, w)))) = files w \<and>
   writeCalls (snd (snd (walkFn pf repoPath False en (st, w)))) = writeCalls w"
proof -
  obtain r w1 where c: "checkAndFixFile w (path en) False = (r, w1)"
    by (cases "checkAndFixFile w (path en) False")
  with checkAndFixFile_check_world[of w "path en"] have "w1 = w" by simp
  with c show ?thesis
    by (simp add: walkFn_def Let_def split: option.splits sum.splits)
qed

lemma bucketOf_check_cong:
  "files w1 = files w \<Longrightarrow> bucketOf pf repoPath False w1 en = bucketOf pf repoPath False w en"
  by (simp add: bucketOf_def ReadFile_def split: sum.splits option.splits)

lemma Walk_check_mode:
  "files (snd (snd (Walk (walkFn pf repoPath False) entries (st, w)))) = files w \<and>
   writeCalls (snd (snd (Walk (walkFn pf repoPath False) entries (st, w)))) = writeCalls w \<and>
   problematicFiles (fst (snd (Walk (walkFn pf repoPath False) entries (st, w)))) =
     problematicFiles st @
     map (\<lambda>en. relPathOf pf repoPath (path en))
       (filter (\<lambda>en. \<not> isDir en \<and> bucketOf pf repoPath False w en = Missing) (visited entries))"
proof (induction entries arbitrary: st w)
  case Nil
  then show ?case by (simp add: visited_def)
next
  case (Cons en ens)
  show ?case
  proof (cases "walkErr en")
    case (Some err)
    then show ?thesis by (simp add: Walk_Cons_err visited_def del: Walk.simps)
  next
    case None
    obtain st1 w1 where s1: "snd (walkFn pf repoPath False en (st, w)) = (st1, w1)"
      by (cases "snd (walkFn pf repoPath False en (st, w))")
    have w1: "files w1 = files w" "writeCalls w1 = writeCalls w"
      using walkFn_check_world[of pf repoPath en st w] s1 by simp_all
    have cong: "\<And>e. bucketOf pf repoPath False w1 e = bucketOf pf repoPath False w e"
      using w1(1) by (rule bucketOf_check_cong)
    note IH = Cons.IH[of st1 w1, unfolded cong]
    show ?thesis
    proof (cases "isDir en")
      case True
      with None s1 have "st1 = st" by (simp add: walkFn_dir)
      with IH None True w1 show ?thesis
        by (simp add: Walk_Cons_ok[OF None] s1 visited_def del: Walk.simps)
    next
      case False
      have st1: "fst (snd (walkFn pf repoPath False en (st, w))) = st1" using s1 by simp
      note d = walkFn_bucket[OF None False, of pf repoPath False st w, unfolded st1]
      show ?thesis
        using IH None False d w1
        by (simp add: Walk_Cons_ok[OF None] s1 visited_def del: Walk.simps)
    qed
  qed
qed

text \<open>
  Claim C9. In check mode the run writes nothing: after the walk the file system is the
  one before it, and \<open>os.WriteFile\<close> has not been called. The files that miss their
  newline are recorded, and only recorded: the missing-newline list is the list of the
  relative paths of the visited regular files in the bucket \<open>Missing\<close>, in the order of
  the visits.
\<close>

theorem check_mode_mutates_nothing:
  "files (snd (snd (walkRepository pf repoPath False entries w))) = files w \<and>
   writeCalls (snd (snd (walkRepository pf repoPath False entries w))) = writeCalls w \<and>
   problematicFiles (fst (snd (walkRepository pf repoPath False entries w))) =
     map (\<lambda>en. relPathOf pf repoPath (path en))
       (filter (\<lambda>en. \<not> isDir en \<and> bucketOf pf repoPath False w en = Missing) (visited entries))"
  using Walk_check_mode[of pf repoPath entries initialStats w]
  by (simp add: walkRepository_def initialStats_def)

theorem check_mode_mutates_nothing_witness:
  "files (snd (snd (walkRepository unixPlatform ''repo'' False exampleEntries exampleWorld))) =
     files exampleWorld \<and>
   writeCalls (snd (snd (walkRepository unixPlatform ''repo'' False exampleEntries exampleWorld))) = [] \<and>
   problematicFiles (fst (snd (walkRepository unixPlatform ''repo'' False exampleEntries exampleWorld))) =
     [''a.txt'']"
proof -
  have m: "map (\<lambda>en. relPathOf unixPlatform ''repo'' (path en))
       (filter (\<lambda>en. \<not> isDir en \<and> bucketOf unixPlatform ''repo'' False exampleWorld en = Missing)
          (visited exampleEntries)) = [''a.txt'']"
    by code_simp
  have c: "writeCalls exampleWorld = []" by (simp add: exampleWorld_def)
  from check_mode_mutates_nothing[of unixPlatform "''repo''" exampleEntries exampleWorld] m c
  show ?thesis by simp
qed

lemma fixable_cong: "files w1 p = files w2 p \<Longrightarrow> fixable w1 p = fixable w2 p"
  by (auto simp: fixable_def checkAndFixFile_def ReadFile_def WriteFile_def Let_def
      split: option.splits sum.splits writeFault.splits prod.splits)

lemma checkAndFixFile_files_other:
  "p \<noteq> q \<Longrightarrow> files (snd (checkAndFixFile w p fix)) q = files w q"
  by (auto simp: checkAndFixFile_def ReadFile_def WriteFile_def Let_def
      split: option.splits sum.splits writeFault.splits prod.splits)

lemma HasSuffix_append_newline: "HasSuffix (data @ [0x0A]) [0x0A]"
  by (simp add: HasSuffix_def)

lemma checkAndFixFile_not_fixable_after: "\<not> fixable (snd (checkAndFixFile w p True)) p"
  by (auto simp: fixable_def checkAndFixFile_def ReadFile_def WriteFile_def Let_def
      HasSuffix_append_newline
      split: option.splits sum.splits writeFault.splits prod.splits if_splits)

lemma walkFn_files_cases:
  "files (snd (snd (walkFn pf repoPath fix en (st, w)))) = files w \<or>
   files (snd (snd (walkFn pf repoPath fix en (st, w)))) =
     files (snd (checkAndFixFile w (path en) fix))"
  by (cases "checkAndFixFile w (path en) fix")
     (simp add: walkFn_def Let_def split: option.splits sum.splits)

lemma walkFn_files_visit:
  assumes "walkErr en = None" and "\<not> isDir en"
    and "\<not> shouldSkipFile pf (relPathOf pf repoPath (path en))"
  shows "files (snd (snd (walkFn pf repoPath fix en (st, w)))) =
         files (snd (checkAndFixFile w (path en) fix))"
  using assms
  by (cases "checkAndFixFile w (path en) fix")
     (simp add: walkFn_def Let_def split: sum.splits)

lemma walkFn_preserves_not_fixable:
  assumes "\<not> fixable w q"
  shows "\<not> fixable (snd (snd (walkFn pf repoPath True en (st, w)))) q"
proof -
  let ?w' = "snd (snd (walkFn pf repoPath True en (st, w)))"
  from walkFn_files_cases[of pf repoPath True en st w]
  show ?thesis
  proof
    assume "files ?w' = files w"
    then have "fixable ?w' q = fixable w q" by (intro fixable_cong) simp
    with assms show ?thesis by simp
  next
    assume f: "files ?w' = files (snd (checkAndFixFile w (path en) True))"
    then have c: "fixable ?w' q = fixable (snd (checkAndFixFile w (path en) True)) q"
      by (intro fixable_cong) simp
    show ?thesis
    proof (cases "path en = q")
      case True
      with c checkAndFixFile_not_fixable_after[of w q] show ?thesis by simp
    next
      case False
      then have "files (snd (checkAndFixFile w (path en) True)) q = files w q"
        by (rule checkAndFixFile_files_other)
      then have "fixable (snd (checkAndFixFile w (path en) True)) q = fixable w q"
        by (rule fixable_cong)
      with c assms show ?thesis by simp
    qed
  qed
qed

lemma walkFn_settles:
  assumes "walkErr en = None" and "\<not> isDir en"
    and "\<not> shouldSkipFile pf (relPathOf pf repoPath (path en))"
  shows "\<not> fixable (snd (snd (walkFn pf repoPath True en (st, w)))) (path en)"
proof -
  have "fixable (snd (snd (walkFn pf repoPath True en (st, w)))) (path en) =
        fixable (snd (checkAndFixFile w (path en) True)) (path en)"
    using walkFn_files_visit[OF assms, of True st w] by (intro fixable_cong) simp
  with checkAndFixFile_not_fixable_after[of w "path en"] show ?thesis by simp
qed

lemma Walk_preserves_not_fixable:
  "\<not> fixable w q \<Longrightarrow>
   \<not> fixable (snd (snd (Walk (walkFn pf repoPath True) entries (st, w)))) q"
proof (induction entries arbitrary: st w)
  case Nil
  then show ?case by simp
next
  case (Cons en ens)
  show ?case
  proof (cases "walkErr en")
    case (Some err)
    with Cons.prems show ?thesis by (simp add: Walk_Cons_err del: Walk.simps)
  next
    case None
    obtain st1 w1 where s1: "snd (walkFn pf repoPath True en (st, w)) = (st1, w1)"
      by (cases "snd (walkFn pf repoPath True en (st, w))")
    have "\<not> fixable w1 q"
      using walkFn_preserves_not_fixable[OF Cons.prems, of pf repoPath en st] s1 by simp
    from Cons.IH[OF this, of st1] show ?thesis
      by (simp add: Walk_Cons_ok[OF None] s1 del: Walk.simps)
  qed
qed

text \<open>After a run in fix mode no visited file is fixable any more.\<close>

lemma Walk_settles:
  "\<forall>en\<in>set (visited entries).
     \<not> isDir en \<longrightarrow> \<not> shouldSkipFile pf (relPathOf pf repoPath (path en)) \<longrightarrow>
     \<not> fixable (snd (snd (Walk (walkFn pf repoPath True) entries (st, w)))) (path en)"
proof (induction entries arbitrary: st w)
  case Nil
  then show ?case by (simp add: visited_def)
next
  case (Cons en ens)
  show ?case
  proof (cases "walkErr en")
    case (Some err)
    then show ?thesis by (simp add: visited_def)
  next
    case None
    obtain st1 w1 where s1: "snd (walkFn pf repoPath True en (st, w)) = (st1, w1)"
      by (cases "snd (walkFn pf repoPath True en (st, w))")
    have W: "Walk (walkFn pf repoPath True) (en # ens) (st, w) =
             Walk (walkFn pf repoPath True) ens (st1, w1)"
      by (simp add: Walk_Cons_ok[OF None] s1 del: Walk.simps)
    have v: "visited (en # ens) = en # visited ens" using None by (simp add: visited_def)
    show ?thesis
      unfolding W v
    proof (intro ballI impI)
      fix e
      assume e: "e \<in> set (en # visited ens)" and nd: "\<not> isDir e"
        and ns: "\<not> shouldSkipFile pf (relPathOf pf repoPath (path e))"
      show "\<not> fixable (snd (snd (Walk (walkFn pf repoPath True) ens (st1, w1)))) (path e)"
      proof (cases "e \<in> set (visited ens)")
        case True
        with Cons.IH[of st1 w1] nd ns show ?thesis by blast
      next
        case False
        with e have "e = en" by simp
        then have "\<not> fixable w1 (path e)"
          using walkFn_settles[OF None, of pf repoPath st w] nd ns s1 by simp
        then show ?thesis by (rule Walk_preserves_not_fixable)
      qed
    qed
  qed
qed

lemma bucketOf_Fixed_fixable:
  "bucketOf pf repoPath True w en = Fixed \<Longrightarrow> fixable w (path en)"
  by (auto simp: bucketOf_def fixable_def checkAndFixFile_def Let_def HasSuffix_newline
      split: if_splits sum.splits option.splits prod.splits)

text \<open>A run in fix mode over files none of which is fixable fixes nothing.\<close>

lemma Walk_nothing_to_fix:
  assumes "\<forall>en\<in>set (visited entries).
     \<not> isDir en \<longrightarrow> \<not> shouldSkipFile pf (relPathOf pf repoPath (path en)) \<longrightarrow>
     \<not> fixable w (path en)"
  shows "fixedFiles (fst (snd (Walk (walkFn pf repoPath True) entries (st, w)))) = fixedFiles st"
  using assms
proof (induction entries arbitrary: st w)
  case Nil
  then show ?case by simp
next
  case (Cons en ens)
  show ?case
  proof (cases "walkErr en")
    case (Some err)
    then show ?thesis by (simp add: Walk_Cons_err del: Walk.simps)
  next
    case None
    obtain st1 w1 where s1: "snd (walkFn pf repoPath True en (st, w)) = (st1, w1)"
      by (cases "snd (walkFn pf repoPath True en (st, w))")
    have W: "Walk (walkFn pf repoPath True) (en # ens) (st, w) =
             Walk (walkFn pf repoPath True) ens (st1, w1)"
      by (simp add: Walk_Cons_ok[OF None] s1 del: Walk.simps)
    have v: "visited (en # ens) = en # visited ens" using None by (simp add: visited_def)
    have rest: "\<forall>e\<in>set (visited ens).
       \<not> isDir e \<longrightarrow> \<not> shouldSkipFile pf (relPathOf pf repoPath (path e)) \<longrightarrow>
       \<not> fixable w1 (path e)"
    proof (intro ballI impI)
      fix e
      assume "e \<in> set (visited ens)" and "\<not> isDir e"
        and "\<not> shouldSkipFile pf (relPathOf pf repoPath (path e))"
      with Cons.prems v have "\<not> fixable w (path e)" by simp
      from walkFn_preserves_not_fixable[OF this, of pf repoPath en st] s1
      show "\<not> fixable w1 (path e)" by simp
    qed
    have head: "fixedFiles st1 = fixedFiles st"
    proof (cases "isDir en")
      case True
      with None s1 show ?thesis by (simp add: walkFn_dir)
    next
      case False
      have st1: "fst (snd (walkFn pf repoPath True en (st, w))) = st1" using s1 by simp
      note d = walkFn_bucket[OF None False, of pf repoPath True st w, unfolded st1]
      have "bucketOf pf repoPath True w en \<noteq> Fixed"
      proof
        assume F: "bucketOf pf repoPath True w en = Fixed"
        then have "fixable w (path en)" by (rule bucketOf_Fixed_fixable)
        moreover have "\<not> shouldSkipFile pf (relPathOf pf repoPath (path en))"
          using F by (auto simp: bucketOf_def split: if_splits)
        ultimately show False using Cons.prems v False by simp
      qed
      with d show ?thesis by simp
    qed
    from Cons.IH[OF rest, of st1] head show ?thesis by (simp only: W)
  qed
qed

text \<open>
  Claim C4. A second run in fix mode, on the tree the first run has left and over the
  same entries, fixes no file: its fixed counter is 0. (A fault of a file is part of
  the tree and stays between the runs.)
\<close>

theorem fix_mode_twice:
  "fixedFiles (fst (snd (walkRepository pf repoPath True entries
      (snd (snd (walkRepository pf repoPath True entries w)))))) = 0"
  unfolding walkRepository_def
  using Walk_nothing_to_fix[OF Walk_settles[of entries pf repoPath initialStats w],
      of initialStats]
  by (simp add: initialStats_def)

theorem fix_mode_twice_witness:
  "fixedFiles (fst (snd (walkRepository unixPlatform ''repo'' True exampleEntries exampleWorld))) = 1 \<and>
   fixedFiles (fst (snd (walkRepository unixPlatform ''repo'' True exampleEntries
      (snd (snd (walkRepository unixPlatform ''repo'' True exampleEntries exampleWorld)))))) = 0"
proof -
  have 1: "fixedFiles (fst (snd (walkRepository unixPlatform ''repo'' True exampleEntries
             exampleWorld))) = 1"
    by code_simp
  from 1 fix_mode_twice[of unixPlatform "''repo''" exampleEntries exampleWorld]
  show ?thesis by simp
qed

text \<open>
  Claim C5. A file that is not empty, not binary and does not end with \<open>0x0A\<close>, and
  whose read and write succeed, is rewritten by \<open>checkAndFixFile\<close> in fix mode: there is
  one call of \<open>os.WriteFile\<close>, with the old content plus one byte \<open>0x0A\<close> and the
  permission \<open>0o644\<close> (decimal 420), the file then holds these bytes, and nothing else
  in the file system changes.
\<close>

theorem checkAndFixFile_appends_newline:
  assumes "files w p = Some f" and "readFault f = None" and "writeFault f = None"
    and "content f \<noteq> []" and "\<not> isBinary (content f)" and "last (content f) \<noteq> 0x0A"
  shows "checkAndFixFile w p True =
           (Inr False,
            w\<lparr>writeCalls := writeCalls w @ [(p, content f @ [0x0A], 6 * 64 + 4 * 8 + 4)],
              files := (files w)(p \<mapsto> f\<lparr>content := content f @ [0x0A]\<rparr>)\<rparr>)"
proof -
  have r: "ReadFile w p = Inr (content f)" using assms(1,2) by (simp add: ReadFile_def)
  have wr: "WriteFile w p (content f @ [0x0A]) perm0644 =
        (None, w\<lparr>writeCalls := writeCalls w @ [(p, content f @ [0x0A], perm0644)],
                 files := (files w)(p \<mapsto> f\<lparr>content := content f @ [0x0A]\<rparr>)\<rparr>)"
    using assms(1,3) by (simp add: WriteFile_def Let_def)
  show ?thesis
    using checkAndFixFile_fix[OF r assms(4,5,6)] wr by (simp add: perm0644_def)
qed

theorem checkAndFixFile_appends_newline_witness:
  "files exampleWorld ''repo/a.txt'' = Some (textFile [104, 105]) \<and>
   content (textFile [104, 105]) \<noteq> [] \<and> \<not> isBinary (content (textFile [104, 105])) \<and>
   last (content (textFile [104, 105])) \<noteq> 0x0A \<and>
   fst (checkAndFixFile exampleWorld ''repo/a.txt'' True) = Inr False \<and>
   map_option content (files (snd (checkAndFixFile exampleWorld ''repo/a.txt'' True)) ''repo/a.txt'') =
     Some [104, 105, 0x0A] \<and>
   writeCalls (snd (checkAndFixFile exampleWorld ''repo/a.txt'' True)) =
     [(''repo/a.txt'', [104, 105, 0x0A], 420)]"
proof -
  have f: "files exampleWorld ''repo/a.txt'' = Some (textFile [104, 105])"
    by (simp add: exampleWorld_def)
  have b: "\<not> isBinary (content (textFile [104, 105]))" by code_simp
  have c: "content (textFile [104, 105]) = [104, 105]" by (simp add: textFile_def)
  have wc: "writeCalls exampleWorld = []" by (simp add: exampleWorld_def)
  from checkAndFixFile_appends_newline[OF f _ _ _ b] f b c wc
  show ?thesis by (simp add: textFile_def)
qed

text \<open>The same for a whole run in fix mode: a visited, unskipped file of this kind ends
  with its old content plus one \<open>0x0A\<close>, written by the one call on its path.\<close>

lemma checkAndFixFile_writes_other:
  "p \<noteq> q \<Longrightarrow> writesTo (snd (checkAndFixFile w p fix)) q = writesTo w q"
  by (auto simp: writesTo_def checkAndFixFile_def ReadFile_def WriteFile_def Let_def
      split: option.splits sum.splits writeFault.splits prod.splits)

lemma walkFn_world_cases:
  "files (snd (snd (walkFn pf repoPath fix en (st, w)))) = files w \<and>
   writeCalls (snd (snd (walkFn pf repoPath fix en (st, w)))) = writeCalls w \<or>
   walkErr en = None \<and> \<not> isDir en \<and>
   \<not> shouldSkipFile pf (relPathOf pf repoPath (path en)) \<and>
   files (snd (snd (walkFn pf repoPath fix en (st, w)))) =
     files (snd (checkAndFixFile w (path en) fix)) \<and>
   writeCalls (snd (snd (walkFn pf repoPath fix en (st, w)))) =
     writeCalls (snd (checkAndFixFile w (path en) fix))"
  by (cases "checkAndFixFile w (path en) fix")
     (simp add: walkFn_def Let_def split: option.splits sum.splits)

lemma walkFn_other_path:
  assumes "path en \<noteq> p"
  shows "files (snd (snd (walkFn pf repoPath fix en (st, w)))) p = files w p \<and>
         writesTo (snd (snd (walkFn pf repoPath fix en (st, w)))) p = writesTo w p"
  using walkFn_world_cases[of pf repoPath "fix" en st w]
    checkAndFixFile_files_other[OF assms, of w "fix"]
    checkAndFixFile_writes_other[OF assms, of w "fix"]
  by (auto simp: writesTo_def)

lemma walkFn_fine_file:
  assumes "files w p = Some g" and "readFault g = None"
    and "content g = [] \<or> isBinary (content g) \<or> last (content g) = 0x0A"
    and "path en = p"
  shows "files (snd (snd (walkFn pf repoPath fix en (st, w)))) = files w \<and>
         writeCalls (snd (snd (walkFn pf repoPath fix en (st, w)))) = writeCalls w"
proof -
  have r: "ReadFile w p = Inr (content g)" using assms(1,2) by (simp add: ReadFile_def)
  have "snd (checkAndFixFile w (path en) fix) = w"
    using checkAndFixFile_fine[OF r assms(3), of "fix"] assms(4) by simp
  with walkFn_world_cases[of pf repoPath "fix" en st w] show ?thesis by auto
qed

text \<open>A file that ends with a newline stays as it is to the end of the walk.\<close>

lemma Walk_fine_file_stable:
  assumes "files w p = Some g" and "readFault g = None"
    and "content g = [] \<or> isBinary (content g) \<or> last (content g) = 0x0A"
  shows "files (snd (snd (Walk (walkFn pf repoPath fix) entries (st, w)))) p = Some g \<and>
         writesTo (snd (snd (Walk (walkFn pf repoPath fix) entries (st, w)))) p = writesTo w p"
  using assms(1)
proof (induction entries arbitrary: st w)
  case Nil
  then show ?case by simp
next
  case (Cons en ens)
  show ?case
  proof (cases "walkErr en")
    case (Some err)
    with Cons.prems show ?thesis by (simp add: Walk_Cons_err del: Walk.simps)
  next
    case None
    obtain st1 w1 where s1: "snd (walkFn pf repoPath fix en (st, w)) = (st1, w1)"
      by (cases "snd (walkFn pf repoPath fix en (st, w))")
    have same: "files w1 p = files w p \<and> writesTo w1 p = writesTo w p"
    proof (cases "path en = p")
      case True
      from walkFn_fine_file[OF Cons.prems assms(2,3) True, of pf repoPath "fix" st] s1
      show ?thesis by (simp add: writesTo_def)
    next
      case False
      from walkFn_other_path[OF False, of pf repoPath "fix" st w] s1 show ?thesis by simp
    qed
    then have "files w1 p = Some g" using Cons.prems by simp
    from Cons.IH[OF this, of st1] same show ?thesis
      by (simp add: Walk_Cons_ok[OF None] s1 del: Walk.simps)
  qed
qed

lemma Walk_fixes_file:
  assumes f: "readFault f = None" "writeFault f = None"
    "content f \<noteq> []" "\<not> isBinary (content f)" "last (content f) \<noteq> 0x0A"
    and ns: "\<not> shouldSkipFile pf (relPathOf pf repoPath p)"
  shows "files w p = Some f \<Longrightarrow>
         \<exists>en\<in>set (visited entries). path en = p \<and> \<not> isDir en \<Longrightarrow>
         files (snd (snd (Walk (walkFn pf repoPath True) entries (st, w)))) p =
           Some (f\<lparr>content := content f @ [0x0A]\<rparr>) \<and>
         writesTo (snd (snd (Walk (walkFn pf repoPath True) entries (st, w)))) p =
           writesTo w p @ [(content f @ [0x0A], perm0644)]"
proof (induction entries arbitrary: st w)
  case Nil
  then show ?case by (simp add: visited_def)
next
  case (Cons en ens)
  show ?case
  proof (cases "walkErr en")
    case (Some err)
    with Cons.prems(2) show ?thesis by (simp add: visited_def)
  next
    case None
    obtain st1 w1 where s1: "snd (walkFn pf repoPath True en (st, w)) = (st1, w1)"
      by (cases "snd (walkFn pf repoPath True en (st, w))")
    have W: "Walk (walkFn pf repoPath True) (en # ens) (st, w) =
             Walk (walkFn pf repoPath True) ens (st1, w1)"
      by (simp add: Walk_Cons_ok[OF None] s1 del: Walk.simps)
    have v: "visited (en # ens) = en # visited ens" using None by (simp add: visited_def)
    show ?thesis
    proof (cases "path en = p \<and> \<not> isDir en")
      case True
      have c: "checkAndFixFile w p True =
           (Inr False,
            w\<lparr>writeCalls := writeCalls w @ [(p, content f @ [0x0A], perm0644)],
              files := (files w)(p \<mapsto> f\<lparr>content := content f @ [0x0A]\<rparr>)\<rparr>)"
      proof -
        have r: "ReadFile w p = Inr (content f)"
          using Cons.prems(1) f(1) by (simp add: ReadFile_def)
        have "WriteFile w p (content f @ [0x0A]) perm0644 =
           (None, w\<lparr>writeCalls := writeCalls w @ [(p, content f @ [0x0A], perm0644)],
                    files := (files w)(p \<mapsto> f\<lparr>content := content f @ [0x0A]\<rparr>)\<rparr>)"
          using Cons.prems(1) f(2) by (simp add: WriteFile_def Let_def)
        with checkAndFixFile_fix[OF r f(3,4,5)] show ?thesis by simp
      qed
      have w1: "files w1 p = Some (f\<lparr>content := content f @ [0x0A]\<rparr>)"
        "writesTo w1 p = writesTo w p @ [(content f @ [0x0A], perm0644)]"
        using s1 True None ns c by (auto simp: walkFn_def Let_def writesTo_def)
      have "files (snd (snd (Walk (walkFn pf repoPath True) ens (st1, w1)))) p =
              Some (f\<lparr>content := content f @ [0x0A]\<rparr>) \<and>
            writesTo (snd (snd (Walk (walkFn pf repoPath True) ens (st1, w1)))) p = writesTo w1 p"
        by (rule Walk_fine_file_stable[OF w1(1)]) (simp_all add: f(1))
      with w1(2) show ?thesis by (simp only: W)
    next
      case False
      have same: "files w1 p = files w p \<and> writesTo w1 p = writesTo w p"
      proof (cases "path en = p")
        case True
        with False have "isDir en" by simp
        with None s1 show ?thesis by (simp add: walkFn_dir)
      next
        case False
        from walkFn_other_path[OF False, of pf repoPath True st w] s1 show ?thesis by simp
      qed
      have ex: "\<exists>e\<in>set (visited ens). path e = p \<and> \<not> isDir e"
        using Cons.prems(2) False v by auto
      have "files w1 p = Some f" using same Cons.prems(1) by simp
      from Cons.IH[OF this ex, of st1] same show ?thesis by (simp only: W)
    qed
  qed
qed

lemma fix_pass_appends_newline:
  assumes "en \<in> set (visited entries)" and "\<not> isDir en"
    and "\<not> shouldSkipFile pf (relPathOf pf repoPath (path en))"
    and "files w (path en) = Some f" and "readFault f = None" and "writeFault f = None"
    and "content f \<noteq> []" and "\<not> isBinary (content f)" and "last (content f) \<noteq> 0x0A"
  shows "files (snd (snd (walkRepository pf repoPath True entries w))) (path en) =
           Some (f\<lparr>content := content f @ [0x0A]\<rparr>) \<and>
         writesTo (snd (snd (walkRepository pf repoPath True entries w))) (path en) =
           writesTo w (path en) @ [(content f @ [0x0A], 6 * 64 + 4 * 8 + 4)]"
proof -
  have ex: "\<exists>e\<in>set (visited entries). path e = path en \<and> \<not> isDir e"
    using assms(1,2) by blast
  from Walk_fixes_file[OF assms(5-9) assms(3) assms(4) ex, of initialStats]
  show ?thesis by (simp add: walkRepository_def perm0644_def)
qed

lemma fix_pass_appends_newline_example:
  "regular ''repo/a.txt'' \<in> set (visited exampleEntries) \<and>
   files exampleWorld ''repo/a.txt'' = Some (textFile [104, 105]) \<and>
   \<not> isBinary [104, 105] \<and>
   map_option content
     (files (snd (snd (walkRepository unixPlatform ''repo'' True exampleEntries exampleWorld)))
        ''repo/a.txt'') = Some [104, 105, 0x0A] \<and>
   writesTo (snd (snd (walkRepository unixPlatform ''repo'' True exampleEntries exampleWorld)))
     ''repo/a.txt'' = [([104, 105, 0x0A], 420)]"
proof -
  have v: "regular ''repo/a.txt'' \<in> set (visited exampleEntries)" by code_simp
  have d: "\<not> isDir (regular ''repo/a.txt'')" by (simp add: regular_def)
  have s: "\<not> shouldSkipFile unixPlatform
             (relPathOf unixPlatform ''repo'' (path (regular ''repo/a.txt'')))"
    by code_simp
  have p: "path (regular ''repo/a.txt'') = ''repo/a.txt''" by (simp add: regular_def)
  have f: "files exampleWorld (path (regular ''repo/a.txt'')) = Some (textFile [104, 105])"
    by (simp add: exampleWorld_def regular_def)
  have b: "\<not> isBinary (content (textFile [104, 105]))" by code_simp
  have c: "content (textFile [104, 105]) = [104, 105]" by (simp add: textFile_def)
  have w0: "writesTo exampleWorld ''repo/a.txt'' = []"
    by (simp add: writesTo_def exampleWorld_def)
  from fix_pass_appends_newline[OF v d s f _ _ _ b] v f b c w0 p
  show ?thesis by (simp add: textFile_def)
qed

end
